theory Spec2Isabelle
  imports Complex_Main "HOL-Library.Word"
begin

unbundle bit_operations_syntax

section \<open>C data: characters, strings, machine integers\<close>

text \<open>
  A C \<open>char\<close> is one byte, an \<open>8 word\<close>. Every character comparison of the program is a
  range test against ASCII constants below 128, so a byte of 128 or more fails each of
  them whether the platform's plain \<open>char\<close> is signed or unsigned; the unsigned order of
  \<open>8 word\<close> is used throughout. A string argument is a buffer of bytes; its contents are
  the bytes before the first NUL (\<open>c_str\<close>), and \<open>strlen\<close> counts them. \<open>unsigned\<close> is
  32 bits wide.
\<close>

type_synonym cchar = "8 word"
type_synonym cstring = "cchar list"

definition ch :: "char \<Rightarrow> cchar" where
  "ch c = of_char c"

definition c_str :: "cstring \<Rightarrow> cchar list" where
  "c_str s = takeWhile (\<lambda>c. c \<noteq> 0) s"

definition strlen :: "cstring \<Rightarrow> nat" where
  "strlen s = length (c_str s)"

text \<open>A string literal \<open>"abc"\<close>: its characters and the terminator.\<close>

definition lit :: "string \<Rightarrow> cstring" where
  "lit s = map ch s @ [0]"

section \<open>Query validation (\<open>validate_query\<close>)\<close>

datatype query_error =
    ERROR_NO_QUERY
  | ERROR_QUERY_LENGTH
  | ERROR_QUERY_INVALID
  | ERROR_QUERY_TENTH_CHAR

definition QUERY_MAX_LENGTH :: nat where
  "QUERY_MAX_LENGTH = 10"

definition TENTH_CHAR_CANDIDATES :: nat where
  "TENTH_CHAR_CANDIDATES = 16"

definition tenth_char :: cstring where
  "tenth_char = lit ''.26AEIMQUYcgkosw''"

text \<open>The test of line 172-174, without its negation.\<close>

definition valid_range :: "cchar \<Rightarrow> bool" where
  "valid_range c =
     ((ch CHR ''.'' \<le> c \<and> c \<le> ch CHR ''9'') \<or>
      (ch CHR ''A'' \<le> c \<and> c \<le> ch CHR ''Z'') \<or>
      (ch CHR ''a'' \<le> c \<and> c \<le> ch CHR ''z''))"

text \<open>
  \<open>for (i = 0; i < len; i++)\<close> with its early \<open>return 0\<close>: \<open>False\<close> when some character
  is out of range, \<open>True\<close> when the loop runs to its end.
\<close>

function range_loop :: "cstring \<Rightarrow> nat \<Rightarrow> nat \<Rightarrow> bool" where
  "range_loop query len i =
     (if i < len
      then (if \<not> valid_range (query ! i) then False else range_loop query len (i + 1))
      else True)"
  by pat_completeness auto
termination
  by (relation "measure (\<lambda>(query, len, i). len - i)") auto

declare range_loop.simps [simp del]

text \<open>
  \<open>for (i = 0; i < TENTH_CHAR_CANDIDATES; i++)\<close>: the loop has no early exit and returns
  the final \<open>match_found\<close>.
\<close>

function tenth_loop :: "cstring \<Rightarrow> nat \<Rightarrow> nat \<Rightarrow> bool \<Rightarrow> bool" where
  "tenth_loop query len i match_found =
     (if i < TENTH_CHAR_CANDIDATES
      then tenth_loop query len (i + 1)
             (if query ! (len - 1) = tenth_char ! i then True else match_found)
      else match_found)"
  by pat_completeness auto
termination
  by (relation "measure (\<lambda>(query, len, i, m). TENTH_CHAR_CANDIDATES - i)") auto

declare tenth_loop.simps [simp del]

text \<open>
  \<open>validate_query\<close> returns 0 after printing one error message (\<open>Inl\<close> of that message) or
  returns 1 (\<open>Inr ()\<close>). A null pointer is \<open>None\<close>. \<open>len\<close> is an \<open>unsigned\<close>, so the
  \<open>size_t\<close> that \<open>strlen\<close> returns is reduced modulo \<open>2 ^ 32\<close>.
\<close>

definition validate_query :: "cstring option \<Rightarrow> query_error + unit" where
  "validate_query query =
     (case query of
        None \<Rightarrow> Inl ERROR_NO_QUERY
      | Some q \<Rightarrow>
          (let len = strlen q mod 2 ^ 32 in
           if len > QUERY_MAX_LENGTH then Inl ERROR_QUERY_LENGTH
           else if \<not> range_loop q len 0 then Inl ERROR_QUERY_INVALID
           else if len = QUERY_MAX_LENGTH \<and> \<not> tenth_loop q len 0 False
             then Inl ERROR_QUERY_TENTH_CHAR
           else Inr ()))"

text \<open>
  The alphabets as the specification writes them: \<open>./0-9A-Za-z\<close> for a tripcode and
  \<open>.26AEIMQUYcgkosw\<close> for its tenth character.
\<close>

definition tripcode_alphabet :: "cchar set" where
  "tripcode_alphabet =
     set (map ch ''./0123456789ABCDEFGHIJKLMNOPQRSTUVWXYZabcdefghijklmnopqrstuvwxyz'')"

definition tenth_alphabet :: "cchar set" where
  "tenth_alphabet = set (map ch ''.26AEIMQUYcgkosw'')"

section \<open>The per-worker generator (\<open>qrand_r\<close>)\<close>

text \<open>
  \<open>*seed = (214013 * *seed + 2531011)\<close> in \<open>unsigned\<close> arithmetic, which wraps modulo
  \<open>2 ^ 32\<close>; the result is bits 16 to 30 of the new seed, as an \<open>int\<close>. The function returns
  the draw and the updated seed.
\<close>

definition qrand_r :: "32 word \<Rightarrow> int \<times> 32 word" where
  "qrand_r seed =
     (let seed' = 214013 * seed + 2531011
      in (uint (drop_bit 16 seed' AND 0x7FFF), seed'))"

text \<open>
  The seed after \<open>n\<close> calls of \<open>qrand_r\<close>, and the value that call number \<open>n\<close> (counted
  from 0) returns.
\<close>

primrec seed_after :: "nat \<Rightarrow> 32 word \<Rightarrow> 32 word" where
  "seed_after 0 seed = seed"
| "seed_after (Suc n) seed = seed_after n (snd (qrand_r seed))"

definition draw :: "32 word \<Rightarrow> nat \<Rightarrow> int" where
  "draw seed n = fst (qrand_r (seed_after n seed))"

section \<open>Tripcode routines\<close>

definition PASSWORD_LENGTH :: nat where
  "PASSWORD_LENGTH = 8"

definition SALT_LENGTH :: nat where
  "SALT_LENGTH = 4"

definition TABLE_SIZE :: int where
  "TABLE_SIZE = 92"

text \<open>
  The lookup table of \<open>generate_password\<close>, a string literal of 92 characters: the printable
  ASCII characters from the space to \<open>}\<close> without \<open>#\<close> and the backslash. The double
  quote (0x22) and the single quote (0x27) are written by their codes.
\<close>

definition lookup :: cstring where
  "lookup =
     map ch '' !'' @ [0x22] @ map ch ''$%&'' @ [0x27] @
     map ch ''()*+,-./0123456789:;<=>?'' @
     lit ''@ABCDEFGHIJKLMNOPQRSTUVWXYZ[]^_`abcdefghijklmnopqrstuvwxyz{|}''"

text \<open>
  \<open>for (i = 0; i < PASSWORD_LENGTH; i++) password[i] = lookup[qrand_r(seed) % TABLE_SIZE]\<close>.
  The buffer \<open>password\<close> is the caller's; the loop returns it updated, with the seed.
\<close>

function password_loop :: "cstring \<Rightarrow> 32 word \<Rightarrow> nat \<Rightarrow> cstring \<times> 32 word" where
  "password_loop password seed i =
     (if i < PASSWORD_LENGTH
      then (let (r, seed') = qrand_r seed
            in password_loop (password[i := lookup ! nat (r mod TABLE_SIZE)]) seed' (i + 1))
      else (password, seed))"
  by pat_completeness auto
termination
  by (relation "measure (\<lambda>(password, seed, i). PASSWORD_LENGTH - i)") auto

declare password_loop.simps [simp del]

definition generate_password :: "cstring \<Rightarrow> 32 word \<Rightarrow> cstring \<times> 32 word" where
  "generate_password password seed =
     (let (password', seed') = password_loop password seed 0
      in (password'[PASSWORD_LENGTH := 0], seed'))"

definition generate_salt :: "cstring \<Rightarrow> cstring \<Rightarrow> cstring" where
  "generate_salt password salt =
     salt[0 := password ! 1, 1 := password ! 2, 2 := ch CHR ''H'', 3 := ch CHR ''.'', 4 := 0]"

function strip_loop :: "cstring \<Rightarrow> nat \<Rightarrow> cstring" where
  "strip_loop salt i =
     (if i < SALT_LENGTH
      then strip_loop
             (if salt ! i < ch CHR ''.'' \<or> salt ! i > ch CHR ''z''
              then salt[i := ch CHR ''.''] else salt)
             (i + 1)
      else salt)"
  by pat_completeness auto
termination
  by (relation "measure (\<lambda>(salt, i). SALT_LENGTH - i)") auto

declare strip_loop.simps [simp del]

definition strip_outliers :: "cstring \<Rightarrow> cstring" where
  "strip_outliers salt = strip_loop salt 0"

text \<open>\<open>salt[i] += 0x06\<close> is an addition of bytes.\<close>

function punctuation_loop :: "cstring \<Rightarrow> nat \<Rightarrow> cstring" where
  "punctuation_loop salt i =
     (if i < SALT_LENGTH
      then punctuation_loop
             (if salt ! i \<ge> ch CHR '':'' \<and> salt ! i \<le> ch CHR ''@''
                then salt[i := salt ! i + 0x06]
              else if salt ! i \<ge> ch CHR ''['' \<and> salt ! i \<le> ch CHR ''`''
                then salt[i := salt ! i + 0x06]
              else salt)
             (i + 1)
      else salt)"
  by pat_completeness auto
termination
  by (relation "measure (\<lambda>(salt, i). SALT_LENGTH - i)") auto

declare punctuation_loop.simps [simp del]

definition replace_punctuation :: "cstring \<Rightarrow> cstring" where
  "replace_punctuation salt = punctuation_loop salt 0"

text \<open>
  The three calls of the worker loop (lines 492 to 494) that turn a password into the salt
  handed to the hash.
\<close>

definition sanitized_salt :: "cstring \<Rightarrow> cstring \<Rightarrow> cstring" where
  "sanitized_salt password salt =
     replace_punctuation (strip_outliers (generate_salt password salt))"

text \<open>
  What one iteration of each sanitization loop does to the character it visits, for the
  proofs below.
\<close>

definition clamp_char :: "cchar \<Rightarrow> cchar" where
  "clamp_char c = (if c < ch CHR ''.'' \<or> c > ch CHR ''z'' then ch CHR ''.'' else c)"

definition shift_char :: "cchar \<Rightarrow> cchar" where
  "shift_char c =
     (if c \<ge> ch CHR '':'' \<and> c \<le> ch CHR ''@'' then c + 0x06
      else if c \<ge> ch CHR ''['' \<and> c \<le> ch CHR ''`'' then c + 0x06
      else c)"

section \<open>Match detector (\<open>strcasestr\<close>)\<close>

text \<open>
  The inner loop over \<open>j\<close> at haystack offset \<open>i\<close>; it returns \<open>matches\<close>. The indices and
  lengths are \<open>unsigned\<close>: sums are reduced modulo \<open>2 ^ 32\<close>. Lines 385 and 386 are kept
  as they are written: the second test reads \<open>h\<close>, already folded, where it decides whether
  to fold \<open>n\<close>.
\<close>

function inner_loop ::
  "cstring \<Rightarrow> cstring \<Rightarrow> nat \<Rightarrow> nat \<Rightarrow> nat \<Rightarrow> nat \<Rightarrow> nat \<Rightarrow> nat" where
  "inner_loop haystack needle len_h len_n i j matches =
     (if j < len_n
      then (if (i + len_n) mod 2 ^ 32 \<le> len_h
            then (let h = haystack ! ((i + j) mod 2 ^ 32);
                      n = needle ! j;
                      h = h + (if h \<ge> ch CHR ''A'' \<and> h \<le> ch CHR ''Z'' then 0x20 else 0x00);
                      n = n + (if h \<ge> ch CHR ''A'' \<and> h \<le> ch CHR ''Z'' then 0x20 else 0x00)
                  in inner_loop haystack needle len_h len_n i (j + 1)
                       (if h = n then (matches + 1) mod 2 ^ 32 else matches))
            else matches)
      else matches)"
  by pat_completeness auto
termination
  by (relation "measure (\<lambda>(haystack, needle, len_h, len_n, i, j, matches). len_n - j)") auto

declare inner_loop.simps [simp del]

text \<open>The outer loop: the offset of the first match, or \<open>None\<close> for the null pointer.\<close>

function outer_loop :: "cstring \<Rightarrow> cstring \<Rightarrow> nat \<Rightarrow> nat \<Rightarrow> nat \<Rightarrow> nat option" where
  "outer_loop haystack needle len_h len_n i =
     (if i < len_h
      then (if inner_loop haystack needle len_h len_n i 0 0 = len_n
            then Some i
            else outer_loop haystack needle len_h len_n (i + 1))
      else None)"
  by pat_completeness auto
termination
  by (relation "measure (\<lambda>(haystack, needle, len_h, len_n, i). len_h - i)") auto

declare outer_loop.simps [simp del]

definition strcasestr :: "cstring \<Rightarrow> cstring \<Rightarrow> nat option" where
  "strcasestr haystack needle =
     outer_loop haystack needle (strlen haystack mod 2 ^ 32) (strlen needle mod 2 ^ 32) 0"

text \<open>
  The case mappings of the specification's property, on the characters of a string; bytes
  that are not ASCII letters, the terminator among them, stay.
\<close>

definition uppercase :: "cstring \<Rightarrow> cstring" where
  "uppercase s = map (\<lambda>c. if ch CHR ''a'' \<le> c \<and> c \<le> ch CHR ''z'' then c - 0x20 else c) s"

definition lowercase :: "cstring \<Rightarrow> cstring" where
  "lowercase s = map (\<lambda>c. if ch CHR ''A'' \<le> c \<and> c \<le> ch CHR ''Z'' then c + 0x20 else c) s"

section \<open>Rate tracker (\<open>trip_frequency\<close>)\<close>

datatype avg_stats = COUNT_ONLY | FETCH_DATA

text \<open>
  The three \<open>static\<close> variables of \<open>trip_frequency\<close>. \<open>time_t\<close> values are only compared for
  equality and are integers here; the value of \<open>time(NULL)\<close> is a parameter of the call.
\<close>

record tracker =
  current_tally :: "32 word"
  average :: "32 word"
  time_at_last_call :: int

definition tracker_init :: tracker where
  "tracker_init = \<lparr>current_tally = 0, average = 0, time_at_last_call = 0\<rparr>"

text \<open>
  \<open>average = (average / 2.0) + (current_tally / 2.0)\<close>: both operands become \<open>double\<close>, which
  holds every multiple of one half below \<open>2 ^ 32\<close> exactly, so the quotients and their sum
  are the rational ones; the assignment to an \<open>unsigned\<close> drops the fraction, and the sum is
  below \<open>2 ^ 32\<close>.
\<close>

definition blend :: "32 word \<Rightarrow> 32 word \<Rightarrow> 32 word" where
  "blend avg tally = word_of_int \<lfloor>(of_nat (unat avg) :: rat) / 2 + of_nat (unat tally) / 2\<rfloor>"

definition trip_frequency :: "avg_stats \<Rightarrow> int \<Rightarrow> tracker \<Rightarrow> 32 word \<times> tracker" where
  "trip_frequency mode current_time s =
     (if mode = FETCH_DATA
      then (if average s \<noteq> 0 then average s else current_tally s, s)
      else (0,
            (if current_time \<noteq> time_at_last_call s
             then s\<lparr>average := blend (average s) (current_tally s), current_tally := 1\<rparr>
             else s\<lparr>current_tally := current_tally s + 1\<rparr>)
            \<lparr>time_at_last_call := current_time\<rparr>))"

text \<open>\<open>n\<close> calls with mode \<open>COUNT_ONLY\<close>, all during the wall-clock second \<open>t\<close>.\<close>

primrec count_calls :: "nat \<Rightarrow> int \<Rightarrow> tracker \<Rightarrow> tracker" where
  "count_calls 0 t s = s"
| "count_calls (Suc n) t s = count_calls n t (snd (trip_frequency COUNT_ONLY t s))"

section \<open>Startup (\<open>main\<close>, lines 447 to 459)\<close>

datatype pmode = HELP_MSG | NO_QUERY_MODE | CASE_SENSITIVE | CASE_AGNOSTIC

text \<open>The enumerators' values: for the two query modes, the index of the query in \<open>argv\<close>.\<close>

fun pmode_value :: "pmode \<Rightarrow> int" where
  "pmode_value HELP_MSG = - 1"
| "pmode_value NO_QUERY_MODE = 0"
| "pmode_value CASE_SENSITIVE = 1"
| "pmode_value CASE_AGNOSTIC = 2"

text \<open>
  \<open>argv\<close> holds \<open>argc\<close> strings and \<open>argv[argc]\<close> is the null pointer. \<open>main\<close> reads
  \<open>argv[mode]\<close> only where \<open>argc\<close> is at least 2 and \<open>mode\<close> is 1 or 2.
\<close>

definition argv_at :: "cstring list \<Rightarrow> nat \<Rightarrow> cstring option" where
  "argv_at argv i = (if i < length argv then Some (argv ! i) else None)"

text \<open>\<open>strcmp(a, b)\<close> is 0 exactly when the two strings have the same contents.\<close>

definition strcmp_eq :: "cstring \<Rightarrow> cstring \<Rightarrow> bool" where
  "strcmp_eq a b = (c_str a = c_str b)"

text \<open>
  How the startup ends: the process returns with a status, after the help text or after one
  error message of \<open>validate_query\<close>, or it goes on to line 461 and starts the workers.
\<close>

datatype startup =
    Help_Exit int
  | Error_Exit int query_error
  | Workers_Started pmode

text \<open>\<open>main\<close> up to line 459, for the program name \<open>argv[0]\<close> and the arguments after it.\<close>

definition main_startup :: "cstring \<Rightarrow> cstring list \<Rightarrow> startup" where
  "main_startup prog args =
     (let argv = prog # args; argc = length argv in
      if argc = 1 then Workers_Started NO_QUERY_MODE
      else if strcmp_eq (argv ! 1) (lit ''-h'') then Help_Exit 1
      else (let mode = (if strcmp_eq (argv ! 1) (lit ''-i'') then CASE_AGNOSTIC
                        else CASE_SENSITIVE)
            in case validate_query (argv_at argv (nat (pmode_value mode))) of
                 Inl e \<Rightarrow> Error_Exit 1 e
               | Inr u \<Rightarrow> Workers_Started mode))"

section \<open>The run flag (\<open>main\<close> from line 461, \<open>sigint_stop\<close>, the worker loop)\<close>

text \<open>
  The control points of \<open>main\<close> after validation: before the assignment of line 461, before
  the \<open>signal\<close> call of line 468, before the parallel region of line 471, inside the region
  waiting for the workers, in the final report of line 504, and after \<open>return\<close>. \<open>Killed\<close> is
  the process ended by an interrupt that arrives while no handler is installed.
\<close>

datatype main_pc = Line_461 | Line_468 | Line_471 | Region | Line_504 | Returned | Killed

text \<open>
  A worker is not yet started, at the test \<open>while (run_state)\<close>, inside the loop body, or
  past its loop.
\<close>

datatype worker_pc = Idle | Loop_Top | In_Body | Finished

record prog =
  run_state :: bool
  pc :: main_pc
  handler :: bool
  workers :: "worker_pc list"

text \<open>\<open>static volatile int run_state\<close> starts as 0.\<close>

definition prog_init :: "nat \<Rightarrow> prog" where
  "prog_init num_cores =
     \<lparr>run_state = False, pc = Line_461, handler = False, workers = replicate num_cores Idle\<rparr>"

text \<open>
  One step of \<open>main\<close>. Lines 462 to 466 (allocation, banner, lock, seeding) and the final
  report do not mention \<open>run_state\<close> and are part of the neighbouring steps.
\<close>

definition main_step :: "prog \<Rightarrow> prog option" where
  "main_step s =
     (case pc s of
        Line_461 \<Rightarrow> Some (s\<lparr>run_state := True, pc := Line_468\<rparr>)
      | Line_468 \<Rightarrow> Some (s\<lparr>handler := True, pc := Line_471\<rparr>)
      | Line_471 \<Rightarrow> Some (s\<lparr>workers := map (\<lambda>w. Loop_Top) (workers s), pc := Region\<rparr>)
      | Region \<Rightarrow>
          if list_all (\<lambda>w. w = Finished) (workers s) then Some (s\<lparr>pc := Line_504\<rparr>) else None
      | Line_504 \<Rightarrow> Some (s\<lparr>pc := Returned\<rparr>)
      | Returned \<Rightarrow> None
      | Killed \<Rightarrow> None)"

text \<open>
  One step of worker \<open>i\<close>: the test of \<open>while (run_state)\<close>, or the loop body of lines 485
  to 501, which reads the flag nowhere and writes it nowhere.
\<close>

definition worker_step :: "nat \<Rightarrow> prog \<Rightarrow> prog option" where
  "worker_step i s =
     (if pc s = Region \<and> i < length (workers s)
      then (case workers s ! i of
              Loop_Top \<Rightarrow>
                Some (s\<lparr>workers := (workers s)[i := (if run_state s then In_Body else Finished)]\<rparr>)
            | In_Body \<Rightarrow> Some (s\<lparr>workers := (workers s)[i := Loop_Top]\<rparr>)
            | Idle \<Rightarrow> None
            | Finished \<Rightarrow> None)
      else None)"

text \<open>
  An interrupt. With the handler installed, \<open>sigint_stop\<close> runs: it prints and assigns
  \<open>run_state = 0\<close>. Without it the default action ends the process.
\<close>

definition sigint_stop :: "prog \<Rightarrow> prog" where
  "sigint_stop s = s\<lparr>run_state := False\<rparr>"

definition interrupt :: "prog \<Rightarrow> prog option" where
  "interrupt s =
     (if pc s = Returned \<or> pc s = Killed then None
      else if handler s then Some (sigint_stop s)
      else Some (s\<lparr>pc := Killed\<rparr>))"

datatype event = Main_Step | Worker_Step nat | Interrupt

fun step :: "event \<Rightarrow> prog \<Rightarrow> prog option" where
  "step Main_Step s = main_step s"
| "step (Worker_Step i) s = worker_step i s"
| "step Interrupt s = interrupt s"

text \<open>A run: the events in their order; \<open>None\<close> when one of them cannot happen.\<close>

fun run :: "event list \<Rightarrow> prog \<Rightarrow> prog option" where
  "run [] s = Some s"
| "run (e # es) s = (case step e s of None \<Rightarrow> None | Some s' \<Rightarrow> run es s')"

text \<open>
  The situation before the parallel region: no worker has left \<open>Idle\<close>, and before line
  461 the flag still has its initial value.
\<close>

definition before_region :: "prog \<Rightarrow> bool" where
  "before_region s \<longleftrightarrow>
     (pc s \<in> {Line_461, Line_468, Line_471} \<longrightarrow> list_all (\<lambda>w. w = Idle) (workers s)) \<and>
     (pc s = Line_461 \<longrightarrow> \<not> run_state s)"

section \<open>Rate formatting (\<open>trip_rate_condense\<close> and the two reporters)\<close>

text \<open>
  \<open>float\<close> is the IEEE 754 binary32 format, with 24 significant bits and rounding to the
  nearest value, ties to the even significand. The values that \<open>trip_rate_condense\<close> compares
  are whole numbers, held here as the natural number they equal; its result is a quotient,
  held as a rational, or the infinity or NaN that a division by \<open>0.0\<close> gives. All values
  stay far inside the exponent range of the format.
\<close>

datatype f32 = Finite rat | Infinity | NaN

text \<open>The number of binary digits of \<open>n\<close>.\<close>

fun bit_length :: "nat \<Rightarrow> nat" where
  "bit_length n = (if n = 0 then 0 else Suc (bit_length (n div 2)))"

declare bit_length.simps [simp del]

text \<open>
  The conversion of a whole number to \<open>float\<close>: a number of up to 24 bits is kept; a longer
  one loses its low \<open>e\<close> bits, rounded to nearest, ties to even.
\<close>

definition f32_of_nat :: "nat \<Rightarrow> nat" where
  "f32_of_nat n =
     (if n < 2 ^ 24 then n
      else (let e = bit_length n - 24; q = n div 2 ^ e; r = n mod 2 ^ e
            in if 2 * r > 2 ^ e \<or> (2 * r = 2 ^ e \<and> odd q) then (q + 1) * 2 ^ e
               else q * 2 ^ e))"

text \<open>The product of two whole \<open>float\<close> values.\<close>

definition f32_mul :: "nat \<Rightarrow> nat \<Rightarrow> nat" where
  "f32_mul a b = f32_of_nat (a * b)"

text \<open>
  The quotient of two whole \<open>float\<close> values. For positive operands, \<open>e\<close> is the exponent of
  the quotient (\<open>2 ^ e \<le> a / b < 2 ^ (e + 1)\<close>); the quotient scaled by \<open>2 ^ (23 - e)\<close> is
  rounded to a whole significand \<open>m\<close>, ties to even.
\<close>

definition f32_div :: "nat \<Rightarrow> nat \<Rightarrow> f32" where
  "f32_div a b =
     (if b = 0 then (if a = 0 then NaN else Infinity)
      else if a = 0 then Finite 0
      else (let d = int (bit_length a) - int (bit_length b);
                e = (if b * 2 ^ nat d \<le> a * 2 ^ nat (- d) then d else d - 1);
                k = 23 - e;
                num = a * 2 ^ nat k;
                den = b * 2 ^ nat (- k);
                m = num div den;
                r = num mod den;
                m = (if 2 * r > den \<or> (2 * r = den \<and> odd m) then m + 1 else m)
            in Finite (of_nat m * 2 ^ nat (- k) / 2 ^ nat k)))"

definition K_TRIP :: nat where
  "K_TRIP = 1000"

definition MAGS :: nat where
  "MAGS = 5"

definition trip_prefix :: "cchar list" where
  "trip_prefix = [0, ch CHR ''k'', ch CHR ''m'', ch CHR ''g'', ch CHR ''t'']"

definition trip_magnitude :: "nat list" where
  "trip_magnitude =
     [0,
      K_TRIP,
      f32_mul K_TRIP K_TRIP,
      f32_mul (f32_mul K_TRIP K_TRIP) K_TRIP,
      f32_mul (f32_mul (f32_mul K_TRIP K_TRIP) K_TRIP) K_TRIP]"

text \<open>
  The loop of \<open>trip_rate_condense\<close>. In \<open>rate < trip_magnitude[i]\<close> the \<open>unsigned\<close> rate is
  converted to \<open>float\<close> first, as it is by the cast in the \<open>return\<close> statements. The
  function returns its \<open>float\<close> result and the character that \<open>*prefix\<close> holds afterwards.
\<close>

function condense_loop :: "32 word \<Rightarrow> cchar \<Rightarrow> nat \<Rightarrow> f32 \<times> cchar" where
  "condense_loop rate prefix i =
     (if i < MAGS
      then (if f32_of_nat (unat rate) < trip_magnitude ! i \<and> i \<noteq> 0
            then (f32_div (f32_of_nat (unat rate)) (trip_magnitude ! (i - 1)),
                  trip_prefix ! (i - 1))
            else condense_loop rate prefix (i + 1))
      else (Finite (of_nat (f32_of_nat (unat rate))), prefix))"
  by pat_completeness auto
termination
  by (relation "measure (\<lambda>(rate, prefix, i). MAGS - i)") auto

declare condense_loop.simps [simp del]

definition trip_rate_condense :: "32 word \<Rightarrow> cchar \<Rightarrow> f32 \<times> cchar" where
  "trip_rate_condense rate prefix = condense_loop rate prefix 0"

text \<open>
  What the reporters print after \<open>@\<close> (lines 412 to 425 of \<open>determine_match\<close>, lines 505
  to 516 of \<open>main\<close>): with a prefix the \<open>float\<close> and the prefix, without one the rate as
  an integer.
\<close>

datatype rate_text = Raw_Rate "32 word" | Scaled_Rate f32 cchar

definition report_rate :: "32 word \<Rightarrow> rate_text" where
  "report_rate avg_rate =
     (let (avg_float, prefix) = trip_rate_condense avg_rate 0
      in if prefix \<noteq> 0 then Scaled_Rate avg_float prefix else Raw_Rate avg_rate)"

section \<open>Query validation: proofs\<close>

lemma valid_range_alphabet: "valid_range c \<longleftrightarrow> c \<in> tripcode_alphabet"
proof
  assume "c \<in> tripcode_alphabet"
  then show "valid_range c"
    unfolding tripcode_alphabet_def valid_range_def ch_def by auto
next
  assume v: "valid_range c"
  have "unat c \<in> {46..<58} \<union> {65..<91} \<union> {97..<123}"
    using v unfolding valid_range_def ch_def by (auto simp: word_le_nat_alt)
  then have "unat c \<in> set ([46..<58] @ [65..<91] @ [97..<123])"
    by (simp only: set_append set_upt Un_assoc)
  then have "of_nat (unat c) \<in> (of_nat ` set ([46..<58] @ [65..<91] @ [97..<123]) :: cchar set)"
    by (rule imageI)
  then show "c \<in> tripcode_alphabet"
    unfolding tripcode_alphabet_def ch_def
    by (simp add: upt_rec)
qed

lemma all_from_Suc:
  "P i \<Longrightarrow> (\<forall>k. i + 1 \<le> k \<and> k < n \<longrightarrow> P k) \<longleftrightarrow> (\<forall>k. i \<le> k \<and> k < n \<longrightarrow> P (k::nat))"
proof
  assume p: "P i" and a: "\<forall>k. i + 1 \<le> k \<and> k < n \<longrightarrow> P k"
  show "\<forall>k. i \<le> k \<and> k < n \<longrightarrow> P k"
  proof (intro allI impI)
    fix k assume k: "i \<le> k \<and> k < n"
    show "P k"
    proof (cases "k = i")
      case True with p show ?thesis by simp
    next
      case False
      with k have "i + 1 \<le> k \<and> k < n" by arith
      with a show ?thesis by blast
    qed
  qed
next
  assume b: "\<forall>k. i \<le> k \<and> k < n \<longrightarrow> P k"
  show "\<forall>k. i + 1 \<le> k \<and> k < n \<longrightarrow> P k"
  proof (intro allI impI)
    fix k assume "i + 1 \<le> k \<and> k < n"
    then have "i \<le> k \<and> k < n" by arith
    with b show "P k" by blast
  qed
qed

lemma ex_from_Suc:
  "(P i \<or> (\<exists>k. i + 1 \<le> k \<and> k < n \<and> P k)) \<longleftrightarrow> (\<exists>k. i \<le> k \<and> k < n \<and> P (k::nat))"
  if "i < n"
proof
  assume "P i \<or> (\<exists>k. i + 1 \<le> k \<and> k < n \<and> P k)"
  then show "\<exists>k. i \<le> k \<and> k < n \<and> P k"
  proof
    assume "P i"
    with that show ?thesis by blast
  next
    assume "\<exists>k. i + 1 \<le> k \<and> k < n \<and> P k"
    then obtain k where "i + 1 \<le> k" "k < n" "P k" by blast
    then have "i \<le> k \<and> k < n \<and> P k" by simp
    then show ?thesis by blast
  qed
next
  assume "\<exists>k. i \<le> k \<and> k < n \<and> P k"
  then obtain k where k: "i \<le> k" "k < n" "P k" by blast
  show "P i \<or> (\<exists>k. i + 1 \<le> k \<and> k < n \<and> P k)"
  proof (cases "k = i")
    case True with k show ?thesis by simp
  next
    case False
    with k have "i + 1 \<le> k \<and> k < n \<and> P k" by simp
    then show ?thesis by blast
  qed
qed

lemma range_loop_iff:
  "range_loop q len i \<longleftrightarrow> (\<forall>k. i \<le> k \<and> k < len \<longrightarrow> valid_range (q ! k))"
proof (induction q len i rule: range_loop.induct)
  case (1 query len i)
  show ?case
  proof (cases "i < len \<and> valid_range (query ! i)")
    case True
    then have "range_loop query len i = range_loop query len (i + 1)"
      by (subst range_loop.simps) simp
    also have "\<dots> \<longleftrightarrow> (\<forall>k. i + 1 \<le> k \<and> k < len \<longrightarrow> valid_range (query ! k))"
      using True 1 by simp
    also have "\<dots> \<longleftrightarrow> (\<forall>k. i \<le> k \<and> k < len \<longrightarrow> valid_range (query ! k))"
      using True by (intro all_from_Suc) simp
    finally show ?thesis .
  next
    case False
    show ?thesis
    proof (cases "i < len")
      case True
      with False have nv: "\<not> valid_range (query ! i)" by simp
      with True have "\<not> range_loop query len i"
        by (subst range_loop.simps) simp
      moreover from True nv
      have "\<not> (\<forall>k. i \<le> k \<and> k < len \<longrightarrow> valid_range (query ! k))"
        by blast
      ultimately show ?thesis by simp
    next
      case False
      then have "range_loop query len i"
        by (subst range_loop.simps) simp
      with False show ?thesis by auto
    qed
  qed
qed

lemma tenth_loop_iff:
  "tenth_loop q len i m \<longleftrightarrow>
     (m \<or> (\<exists>k. i \<le> k \<and> k < TENTH_CHAR_CANDIDATES \<and> q ! (len - 1) = tenth_char ! k))"
proof (induction q len i m rule: tenth_loop.induct)
  case (1 query len i m)
  show ?case
  proof (cases "i < TENTH_CHAR_CANDIDATES")
    case True
    have "tenth_loop query len i m =
            tenth_loop query len (i + 1)
              (if query ! (len - 1) = tenth_char ! i then True else m)"
      using True by (subst tenth_loop.simps) simp
    also have "\<dots> \<longleftrightarrow> (m \<or> (query ! (len - 1) = tenth_char ! i \<or>
        (\<exists>k. i + 1 \<le> k \<and> k < TENTH_CHAR_CANDIDATES \<and> query ! (len - 1) = tenth_char ! k)))"
      unfolding 1 [OF True] by simp
    also have "\<dots> \<longleftrightarrow> (m \<or>
        (\<exists>k. i \<le> k \<and> k < TENTH_CHAR_CANDIDATES \<and> query ! (len - 1) = tenth_char ! k))"
      unfolding ex_from_Suc [OF True, of "\<lambda>k. query ! (len - 1) = tenth_char ! k"] ..
    finally show ?thesis .
  next
    case False
    then have "tenth_loop query len i m = m"
      by (subst tenth_loop.simps) simp
    with False show ?thesis by auto
  qed
qed

lemma tenth_candidates:
  "(\<exists>k. k < TENTH_CHAR_CANDIDATES \<and> c = tenth_char ! k) \<longleftrightarrow> c \<in> tenth_alphabet"
proof -
  have "tenth_alphabet = set (take TENTH_CHAR_CANDIDATES tenth_char)"
    by (simp add: tenth_alphabet_def tenth_char_def lit_def TENTH_CHAR_CANDIDATES_def)
  moreover have "TENTH_CHAR_CANDIDATES \<le> length tenth_char"
    by (simp add: tenth_char_def lit_def TENTH_CHAR_CANDIDATES_def)
  ultimately have eq: "tenth_alphabet = nth tenth_char ` {0..<TENTH_CHAR_CANDIDATES}"
    by (simp add: nth_image)
  show ?thesis
    unfolding eq by (auto simp: image_iff Bex_def)
qed

lemma c_str_nth: "k < strlen q \<Longrightarrow> c_str q ! k = q ! k"
  unfolding strlen_def c_str_def by (rule takeWhile_nth)


lemma last_c_str: "strlen q \<noteq> 0 \<Longrightarrow> last (c_str q) = q ! (strlen q - 1)"
proof -
  assume n: "strlen q \<noteq> 0"
  then have "c_str q \<noteq> []" by (auto simp: strlen_def)
  then have "last (c_str q) = c_str q ! (strlen q - 1)"
    by (simp add: last_conv_nth strlen_def)
  also have "\<dots> = q ! (strlen q - 1)"
    using n by (intro c_str_nth) simp
  finally show ?thesis .
qed

lemma all_c_str:
  "(\<forall>k. k < strlen q \<longrightarrow> P (q ! k)) \<longleftrightarrow> (\<forall>c \<in> set (c_str q). P c)"
proof
  assume a: "\<forall>k. k < strlen q \<longrightarrow> P (q ! k)"
  show "\<forall>c \<in> set (c_str q). P c"
  proof
    fix c assume "c \<in> set (c_str q)"
    then obtain k where k: "k < length (c_str q)" "c = c_str q ! k"
      by (auto simp: in_set_conv_nth)
    then have "k < strlen q" by (simp add: strlen_def)
    with a k c_str_nth [of k q] show "P c" by simp
  qed
next
  assume b: "\<forall>c \<in> set (c_str q). P c"
  show "\<forall>k. k < strlen q \<longrightarrow> P (q ! k)"
  proof (intro allI impI)
    fix k assume k: "k < strlen q"
    then have "c_str q ! k \<in> set (c_str q)" by (simp add: strlen_def)
    with b have "P (c_str q ! k)" by blast
    with k show "P (q ! k)" by (simp add: c_str_nth)
  qed
qed

text \<open>
  Claim C5. \<open>validate_query\<close> accepts exactly the strings over \<open>./0-9A-Za-z\<close> of length
  at most 10 whose tenth character, when there is one, is one of \<open>.26AEIMQUYcgkosw\<close>;
  every other string is rejected. The string is the contents of the argument buffer, and its
  length fits the \<open>unsigned\<close> that holds it.
\<close>

theorem validate_query_accepts_iff:
  assumes "strlen q < 2 ^ 32"
  shows "validate_query (Some q) = Inr () \<longleftrightarrow>
           length (c_str q) \<le> 10 \<and>
           set (c_str q) \<subseteq> tripcode_alphabet \<and>
           (length (c_str q) = 10 \<longrightarrow> last (c_str q) \<in> tenth_alphabet)"
proof -
  have len: "strlen q mod 2 ^ 32 = strlen q"
    using assms by simp
  have l: "length (c_str q) = strlen q"
    by (simp add: strlen_def)
  have "range_loop q (strlen q) 0 \<longleftrightarrow> (\<forall>c \<in> set (c_str q). valid_range c)"
    using all_c_str [of q valid_range] by (simp add: range_loop_iff)
  then have r: "range_loop q (strlen q) 0 \<longleftrightarrow> set (c_str q) \<subseteq> tripcode_alphabet"
    by (simp add: valid_range_alphabet subset_eq)
  have t: "tenth_loop q (strlen q) 0 False \<longleftrightarrow> last (c_str q) \<in> tenth_alphabet"
    if "strlen q = 10"
    using that tenth_candidates [of "q ! (strlen q - 1)"] last_c_str [of q]
    by (simp add: tenth_loop_iff)
  show ?thesis
  proof (cases "strlen q = 10")
    case True
    with t have "tenth_loop q 10 0 False \<longleftrightarrow> last (c_str q) \<in> tenth_alphabet" by simp
    with True r show ?thesis
      by (simp add: validate_query_def Let_def l QUERY_MAX_LENGTH_def)
  next
    case False
    with r len show ?thesis
      by (simp add: validate_query_def Let_def l QUERY_MAX_LENGTH_def)
  qed
qed

theorem validate_query_accepts_iff_witness:
  "strlen (lit ''tripcode.w'') < 2 ^ 32 \<and> validate_query (Some (lit ''tripcode.w'')) = Inr ()"
proof -
  have h: "strlen (lit ''tripcode.w'') < 2 ^ 32"
    by (simp add: strlen_def c_str_def lit_def ch_def)
  show ?thesis
    using h validate_query_accepts_iff [OF h]
    by (simp add: c_str_def lit_def ch_def tripcode_alphabet_def tenth_alphabet_def)
qed

section \<open>Password builder: proofs\<close>

lemma password_loop_unroll:
  "password_loop password seed 0 =
     (password[0 := lookup ! nat (draw seed 0 mod TABLE_SIZE),
               1 := lookup ! nat (draw seed 1 mod TABLE_SIZE),
               2 := lookup ! nat (draw seed 2 mod TABLE_SIZE),
               3 := lookup ! nat (draw seed 3 mod TABLE_SIZE),
               4 := lookup ! nat (draw seed 4 mod TABLE_SIZE),
               5 := lookup ! nat (draw seed 5 mod TABLE_SIZE),
               6 := lookup ! nat (draw seed 6 mod TABLE_SIZE),
               7 := lookup ! nat (draw seed 7 mod TABLE_SIZE)],
      seed_after 8 seed)"
  by (simp add: password_loop.simps PASSWORD_LENGTH_def draw_def split_def Let_def
        eval_nat_numeral)

lemma list9:
  assumes "length (xs :: 'a list) = 9"
  obtains a b c d e f g h i where "xs = [a, b, c, d, e, f, g, h, i]"
proof -
  from assms obtain a b c d e f g h i where "xs = [a, b, c, d, e, f, g, h, i]"
    by (auto simp: length_Suc_conv eval_nat_numeral)
  then show ?thesis by (rule that)
qed

lemma generate_password_eq:
  assumes "length password = 9"
  shows "generate_password password seed =
           (map (\<lambda>i. lookup ! nat (draw seed i mod TABLE_SIZE)) [0..<8] @ [0],
            seed_after 8 seed)"
proof -
  from assms obtain a b c d e f g h i where "password = [a, b, c, d, e, f, g, h, i]"
    by (rule list9)
  then show ?thesis
    by (simp add: generate_password_def password_loop_unroll PASSWORD_LENGTH_def upt_rec
          eval_nat_numeral)
qed

lemma draw_range: "0 \<le> draw seed n \<and> draw seed n \<le> 32767"
proof -
  have "uint (w AND 0x7FFF) \<le> uint (0x7FFF :: 32 word)" for w :: "32 word"
    by (rule word_and_le1 [THEN word_le_def [THEN iffD1]])
  then show ?thesis
    by (simp add: draw_def qrand_r_def Let_def)
qed

lemma c_str_lookup: "c_str lookup = take 92 lookup"
  by (simp add: c_str_def lookup_def lit_def ch_def)

lemma lookup_nth_mem: "lookup ! nat (r mod TABLE_SIZE) \<in> set (c_str lookup)"
proof -
  have "nat (r mod TABLE_SIZE) < 92"
    by (simp add: TABLE_SIZE_def nat_less_iff)
  moreover have "length lookup = 93"
    by (simp add: lookup_def lit_def)
  ultimately have "take 92 lookup ! nat (r mod TABLE_SIZE) \<in> set (take 92 lookup)"
    by (intro nth_mem) simp
  then show ?thesis
    using \<open>nat (r mod TABLE_SIZE) < 92\<close> by (simp add: c_str_lookup)
qed

lemma lookup_excludes:
  "length (c_str lookup) = 92 \<and> distinct (c_str lookup) \<and>
   ch CHR ''#'' \<notin> set (c_str lookup) \<and> 0x5C \<notin> set (c_str lookup) \<and>
   ch CHR ''~'' \<notin> set (c_str lookup)"
  by (simp add: c_str_def lookup_def lit_def ch_def)


lemma c_str_terminated: "0 \<notin> set xs \<Longrightarrow> c_str (xs @ [0]) = xs"
  by (simp add: c_str_def takeWhile_append)

lemma c_str_nonzero: "0 \<notin> set (c_str s)"
  unfolding c_str_def by (auto dest: set_takeWhileD)

lemma password_of_seed_25:
  "fst (generate_password (replicate 9 0) 25) = lit ''=:l<egAm''"
proof -
  have "map (draw 25) [0..<8] = [120, 14285, 9090, 14195, 4575, 11661, 20640, 24639]"
    by code_simp
  then have "map (\<lambda>i. lookup ! nat (draw 25 i mod TABLE_SIZE)) [0..<8] = map ch ''=:l<egAm''"
    by (simp add: upt_rec TABLE_SIZE_def lookup_def lit_def ch_def eval_nat_numeral)
  then show ?thesis
    by (simp add: generate_password_eq lit_def)
qed

text \<open>
  Claim C6. \<open>generate_password\<close> writes exactly 8 characters and a terminator into the
  9-byte buffer it is given. Character \<open>i\<close> is the lookup table's entry at draw number \<open>i\<close>
  reduced modulo 92; every draw lies between 0 and 32767, so the C remainder is the
  mathematical one. The table holds 92 distinct characters without \<open>#\<close>, the backslash
  and \<open>~\<close>. The result is a function of the seed alone: the previous contents of the buffer
  do not enter it.
\<close>

theorem generate_password_spec:
  assumes "length password = PASSWORD_LENGTH + 1"
  shows "generate_password password seed =
           (map (\<lambda>i. lookup ! nat (draw seed i mod TABLE_SIZE)) [0..<PASSWORD_LENGTH] @ [0],
            seed_after PASSWORD_LENGTH seed) \<and>
         length (c_str (fst (generate_password password seed))) = 8 \<and>
         set (c_str (fst (generate_password password seed))) \<subseteq> set (c_str lookup) \<and>
         (\<forall>n. 0 \<le> draw seed n \<and> draw seed n \<le> 32767) \<and>
         length (c_str lookup) = 92 \<and> distinct (c_str lookup) \<and>
         ch CHR ''#'' \<notin> set (c_str lookup) \<and> 0x5C \<notin> set (c_str lookup) \<and>
         ch CHR ''~'' \<notin> set (c_str lookup)"
proof -
  let ?cs = "map (\<lambda>i. lookup ! nat (draw seed i mod TABLE_SIZE)) [0..<PASSWORD_LENGTH]"
  have eq: "generate_password password seed = (?cs @ [0], seed_after PASSWORD_LENGTH seed)"
    using assms by (simp add: generate_password_eq PASSWORD_LENGTH_def)
  have sub: "set ?cs \<subseteq> set (c_str lookup)"
    using lookup_nth_mem by auto
  then have "0 \<notin> set ?cs"
    using c_str_nonzero [of lookup] by blast
  then have cs: "c_str (fst (generate_password password seed)) = ?cs"
    unfolding eq fst_conv by (rule c_str_terminated)
  have len: "length ?cs = 8"
    by (simp add: PASSWORD_LENGTH_def)
  show ?thesis
    using eq sub draw_range lookup_excludes unfolding cs len by blast
qed

theorem generate_password_spec_witness:
  "length (replicate 9 (0 :: cchar)) = PASSWORD_LENGTH + 1 \<and>
   generate_password (replicate 9 0) 1 = (lit ''Jep%Bvh+'', 1924036713)"
proof -
  have h: "length (replicate 9 (0 :: cchar)) = PASSWORD_LENGTH + 1"
    by (simp add: PASSWORD_LENGTH_def)
  have "map (draw 1) [0..<8] = [41, 18467, 6334, 26500, 19169, 15724, 11478, 29358]"
    by code_simp
  then have "map (\<lambda>i. lookup ! nat (draw 1 i mod TABLE_SIZE)) [0..<8] = map ch ''Jep%Bvh+''"
    by (simp add: upt_rec TABLE_SIZE_def lookup_def lit_def ch_def eval_nat_numeral)
  moreover have "seed_after 8 1 = 1924036713"
    by code_simp
  ultimately show ?thesis
    using h generate_password_spec [OF h, of 1]
    by (simp add: PASSWORD_LENGTH_def lit_def)
qed

section \<open>Salt deriver: proofs\<close>

lemma list5:
  assumes "length (xs :: 'a list) = 5"
  obtains a b c d e where "xs = [a, b, c, d, e]"
proof -
  from assms obtain a b c d e where "xs = [a, b, c, d, e]"
    by (auto simp: length_Suc_conv eval_nat_numeral)
  then show ?thesis by (rule that)
qed

lemma strip_loop_step:
  "i < SALT_LENGTH \<Longrightarrow> strip_loop salt i = strip_loop (salt[i := clamp_char (salt ! i)]) (i + 1)"
  by (subst strip_loop.simps) (simp add: clamp_char_def)

lemma strip_loop_end: "strip_loop salt SALT_LENGTH = salt"
  by (subst strip_loop.simps) simp

lemma strip_outliers_eq:
  "strip_outliers [a, b, c, d, e] = [clamp_char a, clamp_char b, clamp_char c, clamp_char d, e]"
proof -
  have "strip_loop [a, b, c, d, e] 0 = strip_loop [clamp_char a, b, c, d, e] 1"
    by (subst strip_loop_step) (simp_all add: SALT_LENGTH_def eval_nat_numeral)
  also have "\<dots> = strip_loop [clamp_char a, clamp_char b, c, d, e] 2"
    by (subst strip_loop_step) (simp_all add: SALT_LENGTH_def eval_nat_numeral)
  also have "\<dots> = strip_loop [clamp_char a, clamp_char b, clamp_char c, d, e] 3"
    by (subst strip_loop_step) (simp_all add: SALT_LENGTH_def eval_nat_numeral)
  also have "\<dots> = strip_loop [clamp_char a, clamp_char b, clamp_char c, clamp_char d, e] 4"
    by (subst strip_loop_step) (simp_all add: SALT_LENGTH_def eval_nat_numeral)
  also have "\<dots> = [clamp_char a, clamp_char b, clamp_char c, clamp_char d, e]"
    using strip_loop_end by (simp add: SALT_LENGTH_def)
  finally show ?thesis
    by (simp add: strip_outliers_def)
qed

lemma punctuation_loop_step:
  "i < SALT_LENGTH \<Longrightarrow>
     punctuation_loop salt i = punctuation_loop (salt[i := shift_char (salt ! i)]) (i + 1)"
  by (subst punctuation_loop.simps) (simp add: shift_char_def)

lemma punctuation_loop_end: "punctuation_loop salt SALT_LENGTH = salt"
  by (subst punctuation_loop.simps) simp

lemma replace_punctuation_eq:
  "replace_punctuation [a, b, c, d, e] =
     [shift_char a, shift_char b, shift_char c, shift_char d, e]"
proof -
  have "punctuation_loop [a, b, c, d, e] 0 = punctuation_loop [shift_char a, b, c, d, e] 1"
    by (subst punctuation_loop_step) (simp_all add: SALT_LENGTH_def eval_nat_numeral)
  also have "\<dots> = punctuation_loop [shift_char a, shift_char b, c, d, e] 2"
    by (subst punctuation_loop_step) (simp_all add: SALT_LENGTH_def eval_nat_numeral)
  also have "\<dots> = punctuation_loop [shift_char a, shift_char b, shift_char c, d, e] 3"
    by (subst punctuation_loop_step) (simp_all add: SALT_LENGTH_def eval_nat_numeral)
  also have "\<dots> = punctuation_loop [shift_char a, shift_char b, shift_char c, shift_char d, e] 4"
    by (subst punctuation_loop_step) (simp_all add: SALT_LENGTH_def eval_nat_numeral)
  also have "\<dots> = [shift_char a, shift_char b, shift_char c, shift_char d, e]"
    using punctuation_loop_end by (simp add: SALT_LENGTH_def)
  finally show ?thesis
    by (simp add: replace_punctuation_def)
qed

lemma sanitized_salt_eq:
  assumes "length salt = 5"
  shows "sanitized_salt password salt =
           [shift_char (clamp_char (password ! 1)), shift_char (clamp_char (password ! 2)),
            ch CHR ''H'', ch CHR ''.'', 0]"
proof -
  from assms obtain a b c d e where "salt = [a, b, c, d, e]"
    by (rule list5)
  moreover have "shift_char (clamp_char (ch CHR ''H'')) = ch CHR ''H''"
    by (simp add: shift_char_def clamp_char_def ch_def)
  moreover have "shift_char (clamp_char (ch CHR ''.'')) = ch CHR ''.''"
    by (simp add: shift_char_def clamp_char_def ch_def)
  ultimately show ?thesis
    by (simp add: sanitized_salt_def generate_salt_def strip_outliers_eq replace_punctuation_eq)
qed

lemma clamp_char_range: "ch CHR ''.'' \<le> clamp_char c \<and> clamp_char c \<le> ch CHR ''z''"
  by (auto simp: clamp_char_def ch_def not_less)

lemma shift_char_nonzero:
  assumes "ch CHR ''.'' \<le> c"
  shows "shift_char c \<noteq> 0"
proof -
  have "c \<noteq> 0"
    using assms by (auto simp: ch_def)
  moreover have nz: "c + 6 \<noteq> 0" if "c \<le> k" "k \<le> 0x60" for k
  proof
    assume "c + 6 = 0"
    then have "c = - 6" by (simp add: eq_neg_iff_add_eq_0)
    then have "c = 250" by simp
    moreover from that have "c \<le> 0x60" by (rule order_trans)
    ultimately show False by simp
  qed
  have "c + 6 \<noteq> 0" if "c \<le> 64"
    using that by (rule nz) simp
  moreover have "c + 6 \<noteq> 0" if "c \<le> 96"
    using that by (rule nz) simp
  ultimately show ?thesis
    by (simp add: shift_char_def ch_def)
qed

lemma sanitized_char_nonzero: "shift_char (clamp_char c) \<noteq> 0"
  using clamp_char_range by (intro shift_char_nonzero) simp

lemma salt_of_seed_25:
  "sanitized_salt (lit ''=:l<egAm'') (replicate 5 0) = lit ''@lH.''"
  by (simp add: sanitized_salt_eq lit_def ch_def shift_char_def clamp_char_def)

text \<open>
  Claim C1, evaluated. Worker seed 25 makes \<open>generate_password\<close> return a password whose
  second character is the colon. \<open>replace_punctuation\<close> adds 6 to it and the salt starts with
  \<open>@\<close>, which is not in \<open>./0-9A-Za-z\<close>: the shift sends \<open>:;<=>?@\<close> to \<open>@ABCDEF\<close>, one short of
  the \<open>ABCDEFG\<close> that the comments of the source announce. The second range, from \<open>[\<close> to the
  backquote, does go to \<open>abcdef\<close>.
\<close>

theorem salt_outside_alphabet:
  "fst (generate_password (replicate 9 0) 25) = lit ''=:l<egAm'' \<and>
   sanitized_salt (lit ''=:l<egAm'') (replicate 5 0) = lit ''@lH.'' \<and>
   ch CHR ''@'' \<notin> tripcode_alphabet \<and>
   replace_punctuation (lit '':;<='') = lit ''@ABC'' \<and>
   replace_punctuation (lit ''>?@A'') = lit ''DEFA'' \<and>
   replace_punctuation ([0x5B, 0x5C] @ lit '']^'') = lit ''abcd'' \<and>
   replace_punctuation (lit ''_`az'') = lit ''efaz''"
  using password_of_seed_25 salt_of_seed_25
  by (simp add: replace_punctuation_eq lit_def ch_def shift_char_def tripcode_alphabet_def)

text \<open>
  Claim C10. Whatever the password, the sanitized salt in the 5-byte buffer of the worker
  loop is a string of exactly 4 characters whose last two are \<open>H\<close> and \<open>.\<close>, followed by
  the terminator: neither pass changes the two appended characters.
\<close>

theorem sanitized_salt_shape:
  assumes "length salt = SALT_LENGTH + 1"
  shows "length (sanitized_salt password salt) = 5 \<and>
         strlen (sanitized_salt password salt) = 4 \<and>
         drop 2 (sanitized_salt password salt) = lit ''H.''"
proof -
  from assms have "length salt = 5"
    by (simp add: SALT_LENGTH_def)
  then have eq: "sanitized_salt password salt =
      [shift_char (clamp_char (password ! 1)), shift_char (clamp_char (password ! 2)),
       ch CHR ''H'', ch CHR ''.'', 0]"
    by (rule sanitized_salt_eq)
  show ?thesis
    unfolding eq using sanitized_char_nonzero
    by (simp add: strlen_def c_str_def lit_def ch_def)
qed

theorem sanitized_salt_shape_witness:
  "length (replicate 5 (0 :: cchar)) = SALT_LENGTH + 1 \<and>
   strlen (sanitized_salt (lit ''=:l<egAm'') (replicate 5 0)) = 4 \<and>
   drop 2 (sanitized_salt (lit ''=:l<egAm'') (replicate 5 0)) = lit ''H.''"
proof -
  have h: "length (replicate 5 (0 :: cchar)) = SALT_LENGTH + 1"
    by (simp add: SALT_LENGTH_def)
  show ?thesis
    using h sanitized_salt_shape [OF h, of "lit ''=:l<egAm''"] by simp
qed

section \<open>Match detector: evaluation\<close>

lemma strcasestr_trip_upper_query:
  "strcasestr (lit ''Gw1.abCdEf'') (lit ''ABC'') = None"
proof -
  have l: "strlen (lit ''Gw1.abCdEf'') = 10" "strlen (lit ''ABC'') = 3"
    by (simp_all add: strlen_def c_str_def lit_def ch_def)
  show ?thesis
    unfolding strcasestr_def l
    by (simp add: outer_loop.simps inner_loop.simps lit_def ch_def)
qed

lemma strcasestr_folded_arguments:
  "strcasestr (uppercase (lit ''Gw1.abCdEf'')) (lowercase (lit ''ABC'')) = Some 4"
proof -
  have u: "uppercase (lit ''Gw1.abCdEf'') = lit ''GW1.ABCDEF''"
    by (simp add: uppercase_def lit_def ch_def)
  have w: "lowercase (lit ''ABC'') = lit ''abc''"
    by (simp add: lowercase_def lit_def ch_def)
  have l: "strlen (lit ''GW1.ABCDEF'') = 10" "strlen (lit ''abc'') = 3"
    by (simp_all add: strlen_def c_str_def lit_def ch_def)
  show ?thesis
    unfolding strcasestr_def u w l
    by (simp add: outer_loop.simps inner_loop.simps lit_def ch_def)
qed

text \<open>
  Claim C2, evaluated. With a tripcode as haystack and a query of capital letters, the search
  finds nothing, while the same search on the upper-cased haystack and the lower-cased
  needle finds the match at offset 4: line 386 tests \<open>h\<close>, which line 385 has already made
  lower case, so the needle is never folded.
\<close>

theorem strcasestr_asymmetric_fold:
  "strcasestr (lit ''Gw1.abCdEf'') (lit ''ABC'') = None \<and>
   strcasestr (uppercase (lit ''Gw1.abCdEf'')) (lowercase (lit ''ABC'')) = Some 4"
  using strcasestr_trip_upper_query strcasestr_folded_arguments by simp

section \<open>Rate tracker: proofs\<close>

lemma blend_eq: "blend a t = of_nat ((unat a + unat t) div 2)"
proof -
  have "(of_nat (unat a) :: rat) / 2 + of_nat (unat t) / 2 =
          of_int (int (unat a + unat t)) / of_int 2"
    by (simp add: add_divide_distrib)
  then have "\<lfloor>(of_nat (unat a) :: rat) / 2 + of_nat (unat t) / 2\<rfloor> =
          int ((unat a + unat t) div 2)"
    by (simp only: floor_divide_of_int_eq zdiv_int) simp
  then show ?thesis
    by (simp add: blend_def)
qed

lemma count_calls_same_second:
  "time_at_last_call s = t \<Longrightarrow>
     count_calls n t s = s\<lparr>current_tally := current_tally s + of_nat n\<rparr>"
proof (induction n arbitrary: s)
  case 0
  then show ?case by simp
next
  case (Suc n)
  let ?s = "snd (trip_frequency COUNT_ONLY t s)"
  from Suc.prems have s: "?s = s\<lparr>current_tally := current_tally s + 1\<rparr>"
    by (simp add: trip_frequency_def)
  then have "time_at_last_call ?s = t"
    using Suc.prems by simp
  then have "count_calls n t ?s = ?s\<lparr>current_tally := current_tally ?s + of_nat n\<rparr>"
    by (rule Suc.IH)
  then show ?case
    by (simp add: s add.assoc)
qed

lemma count_calls_new_second:
  assumes "time_at_last_call s \<noteq> t"
  shows "count_calls (Suc n) t s =
           \<lparr>current_tally = 1 + of_nat n, average = blend (average s) (current_tally s),
            time_at_last_call = t\<rparr>"
proof -
  let ?s = "snd (trip_frequency COUNT_ONLY t s)"
  from assms have s: "?s = \<lparr>current_tally = 1, average = blend (average s) (current_tally s),
      time_at_last_call = t\<rparr>"
    by (simp add: trip_frequency_def)
  then have "time_at_last_call ?s = t"
    by simp
  then have "count_calls n t ?s = ?s\<lparr>current_tally := current_tally ?s + of_nat n\<rparr>"
    by (rule count_calls_same_second)
  then show ?thesis
    by (simp add: s)
qed

lemma first_second:
  "count_calls (Suc n) t tracker_init =
     \<lparr>current_tally = 1 + of_nat n, average = 0, time_at_last_call = t\<rparr>"
proof (cases "t = 0")
  case True
  then have "time_at_last_call tracker_init = t"
    by (simp add: tracker_init_def)
  then show ?thesis
    using True by (simp add: count_calls_same_second tracker_init_def del: count_calls.simps)
next
  case False
  then have "time_at_last_call tracker_init \<noteq> t"
    by (simp add: tracker_init_def)
  then show ?thesis
    by (simp add: count_calls_new_second tracker_init_def blend_eq del: count_calls.simps)
qed

lemma two_seconds:
  assumes "t2 \<noteq> t1"
  shows "count_calls (Suc n2) t2 (count_calls (Suc n1) t1 tracker_init) =
           \<lparr>current_tally = 1 + of_nat n2, average = blend 0 (1 + of_nat n1),
            time_at_last_call = t2\<rparr>"
  using assms by (simp add: first_second count_calls_new_second del: count_calls.simps)

lemma unat_tally: "Suc n < 2 ^ 32 \<Longrightarrow> unat (1 + of_nat n :: 32 word) = Suc n"
proof -
  assume b: "Suc n < 2 ^ 32"
  then have "unat (of_nat (Suc n) :: 32 word) = Suc n"
    by (simp add: unat_of_nat del: of_nat_Suc)
  then show ?thesis
    by simp
qed

lemma blend_first: "Suc n < 2 ^ 32 \<Longrightarrow> blend 0 (1 + of_nat n) = of_nat (Suc n div 2)"
  by (simp only: blend_eq unat_tally) simp

lemma fetch_after_two_seconds:
  assumes "t2 \<noteq> t1" "Suc n1 < 2 ^ 32"
  shows "fst (trip_frequency FETCH_DATA t3
                (count_calls (Suc n2) t2 (count_calls (Suc n1) t1 tracker_init))) =
           (if (of_nat (Suc n1 div 2) :: 32 word) \<noteq> 0 then of_nat (Suc n1 div 2)
            else 1 + of_nat n2)"
  using assms by (simp add: two_seconds blend_first trip_frequency_def del: count_calls.simps)

lemma half_nonzero:
  assumes "2 \<le> c" "c < 2 ^ 32"
  shows "(of_nat (c div 2) :: 32 word) \<noteq> 0"
proof -
  from assms have "0 < c div 2" "c div 2 < 2 ^ 32"
    by auto
  then have "unat (of_nat (c div 2) :: 32 word) = c div 2"
    by (simp add: unat_of_nat)
  with \<open>0 < c div 2\<close> show ?thesis
    by (metis less_numeral_extra(3) unat_0)
qed

text \<open>
  Claim C3, as the code has it. From the initial state, after \<open>c1\<close> counting calls in one
  second and \<open>c2\<close> in another, a fetch returns the integer half of \<open>c1\<close> (for \<open>c1\<close> of at
  least 2): the first call of the second second blends the initial average 0 with the tally
  \<open>c1\<close>, and the tally \<open>c2\<close> of the running second is not part of the average yet.
\<close>

theorem fetch_returns_halved_first_second:
  assumes "t2 \<noteq> t1" and "2 \<le> c1" and "c1 < 2 ^ 32" and "0 < c2"
  shows "fst (trip_frequency FETCH_DATA t3 (count_calls c2 t2 (count_calls c1 t1 tracker_init))) =
           of_nat (c1 div 2)"
proof -
  from assms obtain n1 n2 where n: "c1 = Suc n1" "c2 = Suc n2"
    by (metis Suc_pred gr0_conv_Suc less_le_trans pos2)
  have "(of_nat (c1 div 2) :: 32 word) \<noteq> 0"
    using assms by (intro half_nonzero)
  then show ?thesis
    using assms fetch_after_two_seconds [of t2 t1 n1 t3 n2] unfolding n by simp
qed

theorem fetch_returns_halved_first_second_witness:
  "(1001 :: int) \<noteq> 1000 \<and> (2 :: nat) \<le> 100 \<and> (100 :: nat) < 2 ^ 32 \<and> (0 :: nat) < 50 \<and>
   fst (trip_frequency FETCH_DATA 1001
          (count_calls 50 1001 (count_calls 100 1000 tracker_init))) = 50"
  using fetch_returns_halved_first_second [of 1001 1000 100 50 1001]
  by (simp del: count_calls.simps)

text \<open>The scenario of the claim: 100 calls, then 50, and the fetch returns 50, not 75.\<close>

theorem fetch_100_then_50:
  "fst (trip_frequency FETCH_DATA 1002 (count_calls 50 1001 (count_calls 100 1000 tracker_init))) = 50 \<and>
   (50 :: 32 word) \<noteq> 100 div 2 + 50 div 2"
proof -
  have "fst (trip_frequency FETCH_DATA 1002
               (count_calls (Suc 49) 1001 (count_calls (Suc 99) 1000 tracker_init))) =
          (if (of_nat (Suc 99 div 2) :: 32 word) \<noteq> 0 then of_nat (Suc 99 div 2)
           else 1 + of_nat 49)"
    by (rule fetch_after_two_seconds) simp_all
  then show ?thesis
    by (simp del: count_calls.simps)
qed

text \<open>
  Claim C9. A call with mode \<open>FETCH_DATA\<close> leaves the tally, the average and the time of the
  last call as they were. A call with mode \<open>COUNT_ONLY\<close> always changes the state.
\<close>

theorem fetch_is_read_only:
  "snd (trip_frequency FETCH_DATA t s) = s \<and> snd (trip_frequency COUNT_ONLY t s) \<noteq> s"
proof -
  have "snd (trip_frequency COUNT_ONLY t s) \<noteq> s"
  proof (cases "t = time_at_last_call s")
    case True
    then have "current_tally (snd (trip_frequency COUNT_ONLY t s)) = current_tally s + 1"
      by (simp add: trip_frequency_def)
    then show ?thesis
      by (metis add_cancel_right_right one_neq_zero)
  next
    case False
    then have "time_at_last_call (snd (trip_frequency COUNT_ONLY t s)) = t"
      by (simp add: trip_frequency_def)
    with False show ?thesis
      by metis
  qed
  then show ?thesis
    by (simp add: trip_frequency_def)
qed

section \<open>Startup: proofs\<close>

lemma empty_query_accepted: "validate_query (Some (lit [])) = Inr ()"
proof -
  have "strlen (lit []) = 0"
    by (simp add: strlen_def c_str_def lit_def)
  then show ?thesis
    by (simp add: validate_query_def range_loop.simps QUERY_MAX_LENGTH_def)
qed

lemma strcmp_empty: "\<not> strcmp_eq (lit []) (lit ''-h'') \<and> \<not> strcmp_eq (lit []) (lit ''-i'')"
  by (simp add: strcmp_eq_def c_str_def lit_def ch_def)

lemma strcmp_dash_i: "\<not> strcmp_eq (lit ''-i'') (lit ''-h'') \<and> strcmp_eq (lit ''-i'') (lit ''-i'')"
  by (simp add: strcmp_eq_def c_str_def lit_def ch_def)

lemma main_startup_empty: "main_startup prog (lit [] # rest) = Workers_Started CASE_SENSITIVE"
  by (simp add: main_startup_def strcmp_empty argv_at_def empty_query_accepted)

text \<open>
  Claim C4, as the code has it. When \<open>-i\<close> is the only argument, \<open>argv[2]\<close> is the null
  pointer: \<open>validate_query\<close> reports the missing query and \<open>main\<close> returns 1 before line 461,
  so no worker starts. An empty string (\<open>lit []\<close>, the terminator alone) is a query: it
  passes every test of \<open>validate_query\<close>, and the workers start, in either query mode.
\<close>

theorem absent_query_rejected:
  "validate_query None = Inl ERROR_NO_QUERY \<and>
   main_startup prog [lit ''-i''] = Error_Exit 1 ERROR_NO_QUERY \<and>
   validate_query (Some (lit [])) = Inr () \<and>
   main_startup prog (lit [] # rest) = Workers_Started CASE_SENSITIVE \<and>
   main_startup prog (lit ''-i'' # lit [] # rest) = Workers_Started CASE_AGNOSTIC"
  using empty_query_accepted main_startup_empty
  by (simp add: main_startup_def strcmp_dash_i argv_at_def validate_query_def)

text \<open>The empty string as the only argument: the workers start.\<close>

theorem empty_query_starts_workers:
  "main_startup (lit ''tripforce'') [lit []] = Workers_Started CASE_SENSITIVE"
  by (rule main_startup_empty)

section \<open>The run flag: proofs\<close>

lemmas step_defs = main_step_def worker_step_def interrupt_def sigint_stop_def

lemma step_sets_flag:
  assumes "step e s = Some s1" "\<not> run_state s" "run_state s1"
  shows "e = Main_Step \<and> pc s = Line_461"
  using assms by (cases e) (auto simp: step_defs split: main_pc.splits worker_pc.splits if_splits)

lemma step_clears_flag:
  assumes "step e s = Some s1" "run_state s" "\<not> run_state s1"
  shows "e = Interrupt \<and> handler s"
  using assms by (cases e) (auto simp: step_defs split: main_pc.splits worker_pc.splits if_splits)

lemma step_pc_461:
  assumes "step e s = Some s1" "pc s1 = Line_461"
  shows "pc s = Line_461"
  using assms by (cases e) (auto simp: step_defs split: main_pc.splits worker_pc.splits if_splits)

lemma run_pc_461: "run es s = Some s' \<Longrightarrow> pc s' = Line_461 \<Longrightarrow> pc s = Line_461"
proof (induction es arbitrary: s)
  case Nil
  then show ?case by simp
next
  case (Cons e es)
  then obtain s1 where s1: "step e s = Some s1" "run es s1 = Some s'"
    by (auto split: option.splits)
  with Cons have "pc s1 = Line_461" by blast
  with s1 show ?case by (blast dest: step_pc_461)
qed

lemma run_sets_flag:
  "run es s = Some s' \<Longrightarrow> \<not> run_state s \<Longrightarrow> run_state s' \<Longrightarrow>
     pc s = Line_461 \<and> Main_Step \<in> set es"
proof (induction es arbitrary: s)
  case Nil
  then show ?case by simp
next
  case (Cons e es)
  then obtain s1 where s1: "step e s = Some s1" "run es s1 = Some s'"
    by (auto split: option.splits)
  show ?case
  proof (cases "run_state s1")
    case True
    with s1 Cons.prems show ?thesis
      by (auto dest: step_sets_flag)
  next
    case False
    with s1 Cons have "pc s1 = Line_461 \<and> Main_Step \<in> set es" by blast
    with s1 show ?thesis by (auto dest: step_pc_461)
  qed
qed

lemma run_clears_flag:
  "run es s = Some s' \<Longrightarrow> run_state s \<Longrightarrow> \<not> run_state s' \<Longrightarrow> Interrupt \<in> set es"
proof (induction es arbitrary: s)
  case Nil
  then show ?case by simp
next
  case (Cons e es)
  then obtain s1 where s1: "step e s = Some s1" "run es s1 = Some s'"
    by (auto split: option.splits)
  show ?case
  proof (cases "run_state s1")
    case True
    with s1 Cons show ?thesis by auto
  next
    case False
    with s1 Cons.prems show ?thesis
      by (auto dest: step_clears_flag)
  qed
qed

lemma run_flag_terminal:
  assumes "run es s = Some s'" "pc s \<noteq> Line_461" "\<not> run_state s"
  shows "\<not> run_state s'"
  using assms run_sets_flag by blast

lemma step_before_region:
  assumes "step e s = Some s1" "before_region s"
  shows "before_region s1"
  using assms
  by (cases e)
     (auto simp: step_defs before_region_def list_all_length
           split: main_pc.splits worker_pc.splits if_splits)

lemma run_before_region: "run es s = Some s' \<Longrightarrow> before_region s \<Longrightarrow> before_region s'"
proof (induction es arbitrary: s)
  case Nil
  then show ?case by simp
next
  case (Cons e es)
  then obtain s1 where s1: "step e s = Some s1" "run es s1 = Some s'"
    by (auto split: option.splits)
  with Cons show ?case by (blast intro: step_before_region)
qed

lemma reachable_before_region: "run es (prog_init n) = Some s \<Longrightarrow> before_region s"
  by (erule run_before_region) (simp add: before_region_def prog_init_def list_all_length)

lemma step_finished:
  assumes "step e s = Some s1" "pc s \<notin> {Line_461, Line_468, Line_471}"
    "i < length (workers s)" "workers s ! i = Finished"
  shows "pc s1 \<notin> {Line_461, Line_468, Line_471} \<and>
         length (workers s1) = length (workers s) \<and> workers s1 ! i = Finished \<and>
         e \<noteq> Worker_Step i"
  using assms
  by (cases e)
     (auto simp: step_defs nth_list_update split: main_pc.splits worker_pc.splits if_splits)

lemma run_finished:
  "run es s = Some s' \<Longrightarrow> pc s \<notin> {Line_461, Line_468, Line_471} \<Longrightarrow>
   i < length (workers s) \<Longrightarrow> workers s ! i = Finished \<Longrightarrow>
     workers s' ! i = Finished \<and> Worker_Step i \<notin> set es"
proof (induction es arbitrary: s)
  case Nil
  then show ?case by simp
next
  case (Cons e es)
  then obtain s1 where s1: "step e s = Some s1" "run es s1 = Some s'"
    by (auto split: option.splits)
  from step_finished [OF s1(1) Cons.prems(2,3,4)]
  have *: "pc s1 \<notin> {Line_461, Line_468, Line_471}"
    "i < length (workers s1)" "workers s1 ! i = Finished" "e \<noteq> Worker_Step i"
    using Cons.prems(3) by auto
  from Cons.IH [OF s1(2) *(1,2,3)] *(4) show ?case by simp
qed

lemma step_loop_top:
  assumes "step e s = Some s1" "pc s \<notin> {Line_461, Line_468, Line_471}" "\<not> run_state s"
    "i < length (workers s)" "workers s ! i = Loop_Top"
  shows "length (workers s1) = length (workers s) \<and> \<not> run_state s1 \<and>
         pc s1 \<notin> {Line_461, Line_468, Line_471} \<and>
         workers s1 ! i = (if e = Worker_Step i then Finished else Loop_Top)"
  using assms
  by (cases e)
     (auto simp: step_defs nth_list_update list_all_length
           split: main_pc.splits worker_pc.splits if_splits)

lemma run_loop_top:
  "run es s = Some s' \<Longrightarrow> pc s \<notin> {Line_461, Line_468, Line_471} \<Longrightarrow> \<not> run_state s \<Longrightarrow>
   i < length (workers s) \<Longrightarrow> workers s ! i = Loop_Top \<Longrightarrow>
     workers s' ! i = (if Worker_Step i \<in> set es then Finished else Loop_Top)"
proof (induction es arbitrary: s)
  case Nil
  then show ?case by simp
next
  case (Cons e es)
  then obtain s1 where s1: "step e s = Some s1" "run es s1 = Some s'"
    by (auto split: option.splits)
  note st = step_loop_top [OF s1(1) Cons.prems(2,3,4,5)]
  show ?case
  proof (cases "e = Worker_Step i")
    case True
    with st Cons.prems(4) have "pc s1 \<notin> {Line_461, Line_468, Line_471}"
      "i < length (workers s1)" "workers s1 ! i = Finished" by auto
    with run_finished [OF s1(2)] have "workers s' ! i = Finished" by blast
    with True show ?thesis by simp
  next
    case False
    with st Cons.prems(4) have "pc s1 \<notin> {Line_461, Line_468, Line_471}" "\<not> run_state s1"
      "i < length (workers s1)" "workers s1 ! i = Loop_Top" by auto
    from Cons.IH [OF s1(2) this] False show ?thesis by simp
  qed
qed

text \<open>
  Claim C8. Take a state \<open>s\<close> that the program reaches from its start and any run from \<open>s\<close>
  to \<open>s'\<close>. Before line 461 the flag is still 0 and every worker is idle. The flag goes from
  0 to 1 only by the step of \<open>main\<close> at line 461, and \<open>main\<close> never comes back to that line;
  it goes from 1 to 0 only by an interrupt. So once it is 0 after line 461 it stays 0, and a
  worker that stands at the test of its loop then is still there at the end of the run, or
  has left its loop if it took a step.
\<close>

theorem run_state_terminal:
  assumes "run es0 (prog_init n) = Some s" and "run es s = Some s'"
  shows "(pc s = Line_461 \<longrightarrow> \<not> run_state s \<and> list_all (\<lambda>w. w = Idle) (workers s)) \<and>
         (\<not> run_state s \<and> run_state s' \<longrightarrow> pc s = Line_461 \<and> Main_Step \<in> set es) \<and>
         (run_state s \<and> \<not> run_state s' \<longrightarrow> Interrupt \<in> set es) \<and>
         (pc s \<noteq> Line_461 \<longrightarrow> pc s' \<noteq> Line_461) \<and>
         (pc s \<noteq> Line_461 \<and> \<not> run_state s \<longrightarrow> \<not> run_state s') \<and>
         (\<forall>i < length (workers s).
            pc s = Region \<and> \<not> run_state s \<and> workers s ! i = Loop_Top \<longrightarrow>
            workers s' ! i = (if Worker_Step i \<in> set es then Finished else Loop_Top))"
proof -
  from assms(1) have "before_region s"
    by (rule reachable_before_region)
  then have a: "pc s = Line_461 \<longrightarrow> \<not> run_state s \<and> list_all (\<lambda>w. w = Idle) (workers s)"
    by (simp add: before_region_def)
  have b: "\<not> run_state s \<and> run_state s' \<longrightarrow> pc s = Line_461 \<and> Main_Step \<in> set es"
    using assms(2) run_sets_flag by blast
  have c: "run_state s \<and> \<not> run_state s' \<longrightarrow> Interrupt \<in> set es"
    using assms(2) run_clears_flag by blast
  have d: "pc s \<noteq> Line_461 \<longrightarrow> pc s' \<noteq> Line_461"
    using assms(2) run_pc_461 by blast
  have e: "pc s \<noteq> Line_461 \<and> \<not> run_state s \<longrightarrow> \<not> run_state s'"
    using assms(2) run_flag_terminal by blast
  have f: "\<forall>i < length (workers s).
            pc s = Region \<and> \<not> run_state s \<and> workers s ! i = Loop_Top \<longrightarrow>
            workers s' ! i = (if Worker_Step i \<in> set es then Finished else Loop_Top)"
  proof (intro allI impI)
    fix i assume i: "i < length (workers s)"
      and "pc s = Region \<and> \<not> run_state s \<and> workers s ! i = Loop_Top"
    then have "pc s \<notin> {Line_461, Line_468, Line_471}" "\<not> run_state s"
      "workers s ! i = Loop_Top" by simp_all
    with assms(2) i
    show "workers s' ! i = (if Worker_Step i \<in> set es then Finished else Loop_Top)"
      by (intro run_loop_top)
  qed
  from a b c d e f show ?thesis by blast
qed

theorem run_state_terminal_witness:
  "run [Main_Step, Main_Step, Main_Step, Worker_Step 0, Interrupt] (prog_init 2) =
     Some \<lparr>run_state = False, pc = Region, handler = True, workers = [In_Body, Loop_Top]\<rparr> \<and>
   run [Worker_Step 1, Worker_Step 0, Worker_Step 0, Main_Step]
     \<lparr>run_state = False, pc = Region, handler = True, workers = [In_Body, Loop_Top]\<rparr> =
     Some \<lparr>run_state = False, pc = Line_504, handler = True, workers = [Finished, Finished]\<rparr> \<and>
   \<not> run_state \<lparr>run_state = False, pc = Line_504, handler = True,
                workers = [Finished, Finished]\<rparr>"
proof -
  have r0: "run [Main_Step, Main_Step, Main_Step, Worker_Step 0, Interrupt] (prog_init 2) =
     Some \<lparr>run_state = False, pc = Region, handler = True, workers = [In_Body, Loop_Top]\<rparr>"
    by (simp add: prog_init_def step_defs eval_nat_numeral)
  have r1: "run [Worker_Step 1, Worker_Step 0, Worker_Step 0, Main_Step]
     \<lparr>run_state = False, pc = Region, handler = True, workers = [In_Body, Loop_Top]\<rparr> =
     Some \<lparr>run_state = False, pc = Line_504, handler = True, workers = [Finished, Finished]\<rparr>"
    by (simp add: step_defs)
  show ?thesis
    using r0 r1 run_state_terminal [OF r0 r1] by simp
qed

end
